theory Spec2Isabelle
  imports Main
begin

section \<open>MMM-Ring node helper: a shallow embedding of \<^verbatim>\<open>src/node_helper.js\<close>\<close>

text \<open>
  The helper is one JavaScript object whose methods run on a single-threaded event
  loop. Each method body between two \<^verbatim>\<open>await\<close>s runs to completion, so the model
  gives one HOL function per such segment and one event per way the loop can resume:
  a camera event, a settled promise, a timer, a watcher event, a socket notification.
\<close>

subsection \<open>The file system the helper touches\<close>

text \<open>
  Two paths matter: \<^verbatim>\<open>this.envFile\<close> (a text file) and
  \<^verbatim>\<open>this.videoOutputDirectory\<close>. What is at the directory's path is either
  nothing, something that is not a directory, or a directory with named entries.
  \<^verbatim>\<open>fs.unlink\<close> removes regular files only. The flag \<open>writable\<close> stands for the
  permission to create and remove entries below the module's directory.
\<close>

datatype fs_error = ENOENT | ENOTDIR | EISDIR | EACCES | EEXIST

datatype entry_kind = Regular | Subdirectory

datatype dir_node = Absent | NotADirectory | Directory "(string \<times> entry_kind) list"

record filesystem =
  envFile :: "string option"
  outDir :: dir_node
  writable :: bool

definition fs_exists_outDir :: "filesystem \<Rightarrow> bool" where
  "fs_exists_outDir f = (outDir f \<noteq> Absent)"

definition fs_mkdir :: "filesystem \<Rightarrow> fs_error option \<times> filesystem" where
  "fs_mkdir f =
     (if outDir f \<noteq> Absent then (Some EEXIST, f)
      else if \<not> writable f then (Some EACCES, f)
      else (None, f\<lparr>outDir := Directory []\<rparr>))"

definition fs_readdir :: "filesystem \<Rightarrow> fs_error + string list" where
  "fs_readdir f =
     (case outDir f of
        Absent \<Rightarrow> Inl ENOENT
      | NotADirectory \<Rightarrow> Inl ENOTDIR
      | Directory es \<Rightarrow> Inr (map fst es))"

definition fs_unlink :: "string \<Rightarrow> filesystem \<Rightarrow> fs_error option \<times> filesystem" where
  "fs_unlink name f =
     (case outDir f of
        Absent \<Rightarrow> (Some ENOENT, f)
      | NotADirectory \<Rightarrow> (Some ENOTDIR, f)
      | Directory es \<Rightarrow>
          (case map_of es name of
             None \<Rightarrow> (Some ENOENT, f)
           | Some Subdirectory \<Rightarrow> (Some EISDIR, f)
           | Some Regular \<Rightarrow>
               if writable f
               then (None, f\<lparr>outDir := Directory (filter (\<lambda>e. fst e \<noteq> name) es)\<rparr>)
               else (Some EACCES, f)))"

text \<open>
  \<^verbatim>\<open>Promise.all(files.map(unlink))\<close>: every unlink is started, in the order of
  \<^verbatim>\<open>readdir\<close>; the promise rejects with the first failure, but the other unlinks
  still take effect.
\<close>

fun unlink_all :: "string list \<Rightarrow> filesystem \<Rightarrow> fs_error option \<times> filesystem" where
  "unlink_all [] f = (None, f)"
| "unlink_all (n # ns) f =
     (case fs_unlink n f of
        (e1, f1) \<Rightarrow>
          (case unlink_all ns f1 of
             (e2, f2) \<Rightarrow> ((case e1 of Some e \<Rightarrow> Some e | None \<Rightarrow> e2), f2)))"

text \<open>
  \<^verbatim>\<open>cleanUpVideoStreamDirectory\<close> (lines 65-75). The result is the rejection, if
  any, and the file system the call leaves behind.
\<close>

definition cleanUpVideoStreamDirectory :: "filesystem \<Rightarrow> fs_error option \<times> filesystem" where
  "cleanUpVideoStreamDirectory f =
     (case (if \<not> fs_exists_outDir f then fs_mkdir f else (None, f)) of
        (Some e, f1) \<Rightarrow> (Some e, f1)
      | (None, f1) \<Rightarrow>
          (case fs_readdir f1 of
             Inl e \<Rightarrow> (Some e, f1)
           | Inr files \<Rightarrow> unlink_all files f1))"

subsection \<open>\<^verbatim>\<open>String.prototype.replace\<close> with a string pattern\<close>

text \<open>
  \<^verbatim>\<open>content.replace(old, new)\<close> with two strings replaces the first occurrence of
  \<open>old\<close>, and reads \<open>new\<close> as a replacement pattern: \<^verbatim>\<open>$$\<close> is a dollar sign,
  \<^verbatim>\<open>$&\<close> the matched text, \<^verbatim>\<open>$`\<close> the text before the match and \<^verbatim>\<open>$'\<close> the
  text after it. With a string pattern there are no capture groups, so every other
  \<^verbatim>\<open>$\<close> stands for itself.
\<close>

fun split_first :: "string \<Rightarrow> string \<Rightarrow> (string \<times> string) option" where
  "split_first pat [] = (if pat = [] then Some ([], []) else None)"
| "split_first pat (c # cs) =
     (if take (length pat) (c # cs) = pat then Some ([], drop (length pat) (c # cs))
      else (case split_first pat cs of
              None \<Rightarrow> None
            | Some (b, a) \<Rightarrow> Some (c # b, a)))"

fun getSubstitution :: "string \<Rightarrow> string \<Rightarrow> string \<Rightarrow> string \<Rightarrow> string" where
  "getSubstitution m b a [] = []"
| "getSubstitution m b a [c] = [c]"
| "getSubstitution m b a (c # d # r) =
     (if c = CHR ''$'' \<and> d = CHR ''$'' then CHR ''$'' # getSubstitution m b a r
      else if c = CHR ''$'' \<and> d = CHR ''&'' then m @ getSubstitution m b a r
      else if c = CHR ''$'' \<and> d = CHR 0x60 then b @ getSubstitution m b a r
      else if c = CHR ''$'' \<and> d = CHR 0x27 then a @ getSubstitution m b a r
      else c # getSubstitution m b a (d # r))"

definition js_replace :: "string \<Rightarrow> string \<Rightarrow> string \<Rightarrow> string" where
  "js_replace content old new =
     (case split_first old content of
        None \<Rightarrow> content
      | Some (b, a) \<Rightarrow> b @ getSubstitution old b a new @ a)"

text \<open>
  The subscriber of \<^verbatim>\<open>onRefreshTokenUpdated\<close> (lines 89-100), after its log line.
  \<^verbatim>\<open>oldRefreshToken\<close> may be absent; \<^verbatim>\<open>!oldRefreshToken\<close> holds for an absent
  and for an empty value. A failed read or write rejects the handler's promise and
  leaves the file as it was.
\<close>

definition fs_writeEnvFile :: "string \<Rightarrow> filesystem \<Rightarrow> fs_error option \<times> filesystem" where
  "fs_writeEnvFile content f =
     (if writable f then (None, f\<lparr>envFile := Some content\<rparr>) else (Some EACCES, f))"

definition rotateToken :: "string \<Rightarrow> string option \<Rightarrow> filesystem \<Rightarrow> fs_error option \<times> filesystem" where
  "rotateToken newRefreshToken oldRefreshToken f =
     (case oldRefreshToken of
        None \<Rightarrow> (None, f)
      | Some old \<Rightarrow>
          if old = [] then (None, f)
          else (case envFile f of
                  None \<Rightarrow> (Some ENOENT, f)
                | Some currentConfig \<Rightarrow>
                    fs_writeEnvFile (js_replace currentConfig old newRefreshToken) f))"

subsection \<open>The helper's state\<close>

text \<open>
  The payload of \<^verbatim>\<open>BEGIN_RING_MONITORING\<close>, with the three options the helper
  reads.
\<close>

record config =
  ring2faRefreshToken :: string
  ringStreamMotion :: bool
  ringMinutesToStreamVideo :: int

datatype trigger = Ring | Motion

text \<open>The three socket notifications the helper sends (the payload of the first two is null).\<close>

datatype notification = VIDEO_STREAM_AVAILABLE | VIDEO_STREAM_ENDED | DISPLAY_ERROR string

text \<open>
  The messages handed to \<^verbatim>\<open>toLog\<close>, one constructor per template string of the
  source; \<^verbatim>\<open>toLog\<close> prefixes each with the module name and the date.
\<close>

datatype log_entry =
    StartingModule
  | StoppingHelper
  | RefreshTokenUpdatedMsg
  | FoundMsg nat nat
  | MotionMsg string bool
  | ErrorMonitor string
  | PreparingStream string trigger
  | StreamEndedMsg string
  | ErrorStartingStream string

text \<open>The two callbacks the source hands to \<^verbatim>\<open>setTimeout\<close> (lines 178 and 205).\<close>

datatype timer_action = StopSessionTimer | StopWatchingTimer

text \<open>
  A call of \<^verbatim>\<open>startSession\<close> that is suspended at an \<^verbatim>\<open>await\<close>: at line 151
  (the directory is being cleaned) or at line 157 (the streaming session is being
  created; \<^verbatim>\<open>streamTimeOut\<close> is already computed).
\<close>

datatype task = AwaitCleanup string trigger | AwaitCreate string int

text \<open>
  The first four fields are the helper's own mutable fields. The others are the
  environment as far as the helper can observe it: the file system, the clock, the
  timers not yet fired, the suspended calls, the chokidar watchers not yet closed,
  the streaming sessions whose \<^verbatim>\<open>onCallEnded\<close> has not fired yet (with the name of
  the camera each callback closes over), the sessions asked to stop, the cameras
  subscribed to, and what was sent and logged. \<open>readyBy\<close> is a history variable: the
  watcher whose \<^verbatim>\<open>add\<close> callback sent each \<^verbatim>\<open>VIDEO_STREAM_AVAILABLE\<close>.
\<close>

record helper =
  config :: "config option"
  watcher :: "nat option"
  sipSession :: "nat option"
  sessionRunning :: bool
  fs :: filesystem
  now :: nat
  timers :: "(nat \<times> timer_action) list"
  tasks :: "task list"
  openWatchers :: "nat list"
  nextWatcher :: nat
  liveHandles :: "(nat \<times> string) list"
  nextHandle :: nat
  stopRequested :: "nat list"
  tokenSubscribed :: bool
  doorbellCameras :: "string list"
  motionCameras :: "string list"
  notifications :: "notification list"
  console :: "log_entry list"
  readyBy :: "nat list"

definition audioPlaylistFile :: string where
  "audioPlaylistFile = ''stream.m3u8''"

definition toLog :: "log_entry \<Rightarrow> helper \<Rightarrow> helper" where
  "toLog message s = s\<lparr>console := console s @ [message]\<rparr>"

definition sendSocketNotification :: "notification \<Rightarrow> helper \<Rightarrow> helper" where
  "sendSocketNotification n s = s\<lparr>notifications := notifications s @ [n]\<rparr>"

text \<open>\<^verbatim>\<open>start\<close> (lines 24-34), on the file system the process finds.\<close>

definition start :: "filesystem \<Rightarrow> helper" where
  "start f =
     \<lparr>config = None, watcher = None, sipSession = None, sessionRunning = False,
      fs = f, now = 0, timers = [], tasks = [], openWatchers = [], nextWatcher = 0,
      liveHandles = [], nextHandle = 0, stopRequested = [], tokenSubscribed = False,
      doorbellCameras = [], motionCameras = [], notifications = [],
      console = [StartingModule], readyBy = []\<rparr>"

text \<open>
  Node's \<^verbatim>\<open>setTimeout(callback, delay)\<close>: a delay below 1 or above \<open>2^31 - 1\<close>
  milliseconds is taken as 1. The source never calls \<^verbatim>\<open>clearTimeout\<close>.
\<close>

definition timer_delay :: "int \<Rightarrow> nat" where
  "timer_delay d = (if 1 \<le> d \<and> d \<le> 2147483647 then nat d else 1)"

definition setTimeout :: "timer_action \<Rightarrow> int \<Rightarrow> helper \<Rightarrow> helper" where
  "setTimeout a d s = s\<lparr>timers := timers s @ [(now s + timer_delay d, a)]\<rparr>"

text \<open>\<^verbatim>\<open>stopWatchingFile\<close> (lines 190-195).\<close>

definition stopWatchingFile :: "helper \<Rightarrow> helper" where
  "stopWatchingFile s =
     (case watcher s of
        None \<Rightarrow> s
      | Some w \<Rightarrow> s\<lparr>openWatchers := removeAll w (openWatchers s), watcher := None\<rparr>)"

text \<open>
  \<^verbatim>\<open>watchForStreamStarted\<close> (lines 201-220): the new chokidar watcher gets the next
  free identity, and its \<^verbatim>\<open>add\<close> callback is \<open>onAdd\<close> below.
\<close>

definition watchForStreamStarted :: "helper \<Rightarrow> helper" where
  "watchForStreamStarted s =
     (let s1 = stopWatchingFile s;
          s2 = setTimeout StopWatchingTimer (15 * 1000) s1;
          w = nextWatcher s2
      in s2\<lparr>watcher := Some w, openWatchers := openWatchers s2 @ [w], nextWatcher := Suc w\<rparr>)"

text \<open>
  \<^verbatim>\<open>filePath.split("\\").pop().split("/").pop()\<close>: what follows the last backslash,
  and of that what follows the last slash.
\<close>

definition after_last :: "char \<Rightarrow> string \<Rightarrow> string" where
  "after_last sep p = rev (takeWhile (\<lambda>c. c \<noteq> sep) (rev p))"

definition fileName :: "string \<Rightarrow> string" where
  "fileName filePath = after_last CHR ''/'' (after_last CHR 0x5C filePath)"

text \<open>
  The \<^verbatim>\<open>ignored\<close> option of the watcher, the regular expression of line 208: a
  dot at the start of the path or after a slash or backslash, followed by one more
  character that is no line break. chokidar delivers no event for such a path.
\<close>

fun ignored_from :: "bool \<Rightarrow> string \<Rightarrow> bool" where
  "ignored_from boundary [] = False"
| "ignored_from boundary [c] = False"
| "ignored_from boundary (c # d # r) =
     ((boundary \<and> c = CHR ''.'' \<and> d \<noteq> CHR 0x0A \<and> d \<noteq> CHR 0x0D)
      \<or> ignored_from (c = CHR ''/'' \<or> c = CHR 0x5C) (d # r))"

definition ignored :: "string \<Rightarrow> bool" where
  "ignored p = ignored_from True p"

text \<open>The \<^verbatim>\<open>add\<close> callback of watcher \<open>w\<close> (lines 212-219).\<close>

definition onAdd :: "nat \<Rightarrow> string \<Rightarrow> helper \<Rightarrow> helper" where
  "onAdd w filePath s =
     (if fileName filePath = audioPlaylistFile
      then (sendSocketNotification VIDEO_STREAM_AVAILABLE (stopWatchingFile s))
             \<lparr>readyBy := readyBy s @ [w]\<rparr>
      else s)"

subsection \<open>Sessions\<close>

text \<open>The guard of line 144.\<close>

definition sessionBusy :: "helper \<Rightarrow> bool" where
  "sessionBusy s = (sipSession s \<noteq> None \<or> sessionRunning s)"

text \<open>
  \<^verbatim>\<open>startSession\<close> up to its first \<^verbatim>\<open>await\<close> (lines 144-151): the guard, the flag,
  the log line; then the call is suspended while the directory is cleaned.
\<close>

definition startSession :: "string \<Rightarrow> trigger \<Rightarrow> helper \<Rightarrow> helper" where
  "startSession camera type s =
     (if sessionBusy s then s
      else (let s1 = s\<lparr>sessionRunning := True\<rparr>;
                s2 = toLog (PreparingStream camera type) s1
            in s2\<lparr>tasks := tasks s2 @ [AwaitCleanup camera type]\<rparr>))"

text \<open>The subscribers of \<^verbatim>\<open>onDoorbellPressed\<close> and \<^verbatim>\<open>onMotionDetected\<close> (lines 113-125).\<close>

definition onDoorbellPressed :: "string \<Rightarrow> helper \<Rightarrow> helper" where
  "onDoorbellPressed camera s =
     (if sipSession s = None then startSession camera Ring s else s)"

definition onMotionDetected :: "string \<Rightarrow> bool \<Rightarrow> helper \<Rightarrow> helper" where
  "onMotionDetected camera motion s =
     (if sipSession s = None \<and> motion then startSession camera Motion s else s)"

text \<open>
  \<^verbatim>\<open>startSession\<close> from the resolution of the cleaning to the next \<^verbatim>\<open>await\<close>
  (lines 152-157). Reading \<^verbatim>\<open>this.config.ringMinutesToStreamVideo\<close> with no
  configuration throws outside the \<^verbatim>\<open>try\<close>, which ends the call.
\<close>

definition startSession_cleaned :: "string \<Rightarrow> helper \<Rightarrow> helper" where
  "startSession_cleaned camera s =
     (let s1 = watchForStreamStarted s
      in (case config s1 of
            None \<Rightarrow> s1
          | Some c \<Rightarrow>
              s1\<lparr>tasks := tasks s1 @ [AwaitCreate camera (ringMinutesToStreamVideo c * 60 * 1000)]\<rparr>))"

text \<open>
  \<^verbatim>\<open>startSession\<close> after the streaming session was created (lines 157-182): the
  handle is stored, \<^verbatim>\<open>onCallEnded\<close> is subscribed to, the session timer is set.
\<close>

definition startSession_created :: "string \<Rightarrow> int \<Rightarrow> helper \<Rightarrow> helper" where
  "startSession_created camera streamTimeOut s =
     (let h = nextHandle s;
          s1 = s\<lparr>sipSession := Some h, liveHandles := liveHandles s @ [(h, camera)],
                 nextHandle := Suc h\<rparr>
      in setTimeout StopSessionTimer streamTimeOut s1)"

text \<open>The \<^verbatim>\<open>catch\<close> block of \<^verbatim>\<open>startSession\<close> (lines 184-187).\<close>

definition startSession_failed :: "string \<Rightarrow> helper \<Rightarrow> helper" where
  "startSession_failed message s = (toLog (ErrorStartingStream message) s)\<lparr>sessionRunning := False\<rparr>"

text \<open>The subscriber of \<^verbatim>\<open>onCallEnded\<close> (lines 170-176).\<close>

definition onCallEnded :: "string \<Rightarrow> helper \<Rightarrow> helper" where
  "onCallEnded camera s =
     (let s1 = toLog (StreamEndedMsg camera) s;
          s2 = sendSocketNotification VIDEO_STREAM_ENDED s1;
          s3 = stopWatchingFile s2
      in s3\<lparr>sipSession := None, sessionRunning := False\<rparr>)"

text \<open>\<^verbatim>\<open>sipSession.stop()\<close>: the request is recorded; the session ends when its
  \<^verbatim>\<open>onCallEnded\<close> fires.\<close>

definition sipSession_stop :: "nat \<Rightarrow> helper \<Rightarrow> helper" where
  "sipSession_stop h s = s\<lparr>stopRequested := stopRequested s @ [h]\<rparr>"

text \<open>The callback of the session timer (lines 178-182).\<close>

definition onSessionTimeout :: "helper \<Rightarrow> helper" where
  "onSessionTimeout s = (case sipSession s of None \<Rightarrow> s | Some h \<Rightarrow> sipSession_stop h s)"

definition fire :: "timer_action \<Rightarrow> helper \<Rightarrow> helper" where
  "fire a s = (case a of StopSessionTimer \<Rightarrow> onSessionTimeout s | StopWatchingTimer \<Rightarrow> stopWatchingFile s)"

text \<open>
  \<^verbatim>\<open>stop\<close> (lines 36-46). The promise of the cleaning is not awaited; its effect on
  the file system is taken at once.
\<close>

definition stop :: "helper \<Rightarrow> helper" where
  "stop s =
     (let s1 = stopWatchingFile (toLog StoppingHelper s);
          s2 = (case sipSession s1 of
                  None \<Rightarrow> s1
                | Some h \<Rightarrow> (sipSession_stop h s1)\<lparr>sipSession := None\<rparr>)
      in s2\<lparr>fs := snd (cleanUpVideoStreamDirectory (fs s2))\<rparr>)"

text \<open>The subscriber of \<^verbatim>\<open>onRefreshTokenUpdated\<close> (lines 89-100).\<close>

definition onRefreshTokenUpdated :: "string \<Rightarrow> string option \<Rightarrow> helper \<Rightarrow> helper" where
  "onRefreshTokenUpdated newRefreshToken oldRefreshToken s =
     (let s1 = toLog RefreshTokenUpdatedMsg s
      in s1\<lparr>fs := snd (rotateToken newRefreshToken oldRefreshToken (fs s1))\<rparr>)"

text \<open>
  \<^verbatim>\<open>socketNotificationReceived\<close> for \<^verbatim>\<open>BEGIN_RING_MONITORING\<close> and
  \<^verbatim>\<open>monitorRingActivity\<close> (lines 48-63 and 77-141), with what the Ring API answers:
  the number of locations and the names of the cameras, or the failure's message.
  A failed write of the environment file rejects the handler before
  \<^verbatim>\<open>monitorRingActivity\<close> is called.
\<close>

datatype connect_result = Connected nat "string list" | ConnectFailed string

definition monitorRingActivity :: "connect_result \<Rightarrow> helper \<Rightarrow> helper" where
  "monitorRingActivity r s =
     (let s1 = s\<lparr>tokenSubscribed := True\<rparr>
      in (case r of
            ConnectFailed message \<Rightarrow>
              sendSocketNotification
                (DISPLAY_ERROR ''Failed to initialize Ring connection. Check your refresh token.'')
                (toLog (ErrorMonitor message) s1)
          | Connected locations allCameras \<Rightarrow>
              (let s2 = toLog (FoundMsg locations (length allCameras)) s1
               in s2\<lparr>doorbellCameras := doorbellCameras s2 @ allCameras,
                      motionCameras := motionCameras s2 @
                        (case config s2 of
                           None \<Rightarrow> []
                         | Some c \<Rightarrow> if ringStreamMotion c then allCameras else [])\<rparr>)))"

definition socketNotificationReceived :: "config \<Rightarrow> connect_result \<Rightarrow> helper \<Rightarrow> helper" where
  "socketNotificationReceived payload r s =
     (let s1 = s\<lparr>config := Some payload\<rparr>
      in (case envFile (fs s1) of
            Some content \<Rightarrow> monitorRingActivity r s1
          | None \<Rightarrow>
              (case fs_writeEnvFile (''RING_2FA_REFRESH_TOKEN='' @ ring2faRefreshToken payload) (fs s1) of
                 (Some e, f1) \<Rightarrow> s1
               | (None, f1) \<Rightarrow> monitorRingActivity r (s1\<lparr>fs := f1\<rparr>))))"

subsection \<open>The event loop\<close>

text \<open>
  One event per callback the loop can run. A promise settles for a suspended call
  (named by its position among the suspended calls), a timer fires once its delay
  has passed, a watcher delivers \<^verbatim>\<open>add\<close> only while it is open and only for paths
  it does not ignore, \<^verbatim>\<open>onCallEnded\<close> fires once per created session, and camera
  events reach only the cameras subscribed to. \<open>Advance\<close> lets time pass and
  \<open>EnvFs\<close> lets other processes (the transcoder) change the file system.

  Two handlers are taken in one step although they \<^verbatim>\<open>await\<close> inside: the cleaning
  of the directory, which reads and writes the file system only and is applied when
  its promise settles, and the handling of \<^verbatim>\<open>BEGIN_RING_MONITORING\<close>, which touches
  no field a session uses. A rejection that nothing catches ends the call it
  belongs to and changes nothing else.
\<close>

datatype event =
    BeginMonitoring config connect_result
  | DoorbellPressed string
  | MotionDetected string bool
  | MotionEvent string bool
  | RefreshTokenUpdated string "string option"
  | CleanupSettled nat
  | CreateResolved nat
  | CreateRejected nat string
  | CallEnded nat
  | TimerFired nat
  | WatcherAdd nat string
  | Advance nat
  | EnvFs filesystem
  | Stop

definition remove_nth :: "nat \<Rightarrow> 'a list \<Rightarrow> 'a list" where
  "remove_nth i xs = take i xs @ drop (Suc i) xs"

definition step :: "event \<Rightarrow> helper \<Rightarrow> helper option" where
  "step e s =
     (case e of
        BeginMonitoring payload r \<Rightarrow> Some (socketNotificationReceived payload r s)
      | DoorbellPressed camera \<Rightarrow>
          if camera \<in> set (doorbellCameras s) then Some (onDoorbellPressed camera s) else None
      | MotionDetected camera motion \<Rightarrow>
          if camera \<in> set (motionCameras s) then Some (onMotionDetected camera motion s) else None
      | MotionEvent camera motion \<Rightarrow>
          if camera \<in> set (doorbellCameras s) then Some (toLog (MotionMsg camera motion) s) else None
      | RefreshTokenUpdated newRefreshToken oldRefreshToken \<Rightarrow>
          if tokenSubscribed s then Some (onRefreshTokenUpdated newRefreshToken oldRefreshToken s)
          else None
      | CleanupSettled i \<Rightarrow>
          if i < length (tasks s)
          then (case tasks s ! i of
                  AwaitCleanup camera type \<Rightarrow>
                    (case cleanUpVideoStreamDirectory (fs s) of
                       (Some err, f1) \<Rightarrow> Some (s\<lparr>fs := f1, tasks := remove_nth i (tasks s)\<rparr>)
                     | (None, f1) \<Rightarrow>
                         Some (startSession_cleaned camera
                                 (s\<lparr>fs := f1, tasks := remove_nth i (tasks s)\<rparr>)))
                | AwaitCreate camera streamTimeOut \<Rightarrow> None)
          else None
      | CreateResolved i \<Rightarrow>
          if i < length (tasks s)
          then (case tasks s ! i of
                  AwaitCreate camera streamTimeOut \<Rightarrow>
                    Some (startSession_created camera streamTimeOut
                            (s\<lparr>tasks := remove_nth i (tasks s)\<rparr>))
                | AwaitCleanup camera type \<Rightarrow> None)
          else None
      | CreateRejected i message \<Rightarrow>
          if i < length (tasks s)
          then (case tasks s ! i of
                  AwaitCreate camera streamTimeOut \<Rightarrow>
                    Some (startSession_failed message (s\<lparr>tasks := remove_nth i (tasks s)\<rparr>))
                | AwaitCleanup camera type \<Rightarrow> None)
          else None
      | CallEnded h \<Rightarrow>
          (case map_of (liveHandles s) h of
             None \<Rightarrow> None
           | Some camera \<Rightarrow>
               Some (onCallEnded camera
                       (s\<lparr>liveHandles := filter (\<lambda>l. fst l \<noteq> h) (liveHandles s)\<rparr>)))
      | TimerFired i \<Rightarrow>
          if i < length (timers s) \<and> fst (timers s ! i) \<le> now s
          then Some (fire (snd (timers s ! i)) (s\<lparr>timers := remove_nth i (timers s)\<rparr>))
          else None
      | WatcherAdd w filePath \<Rightarrow>
          if w \<in> set (openWatchers s) \<and> \<not> ignored filePath then Some (onAdd w filePath s) else None
      | Advance d \<Rightarrow> Some (s\<lparr>now := now s + d\<rparr>)
      | EnvFs f \<Rightarrow> Some (s\<lparr>fs := f\<rparr>)
      | Stop \<Rightarrow> Some (stop s))"

fun run :: "event list \<Rightarrow> helper \<Rightarrow> helper option" where
  "run [] s = Some s"
| "run (e # es) s = (case step e s of None \<Rightarrow> None | Some s' \<Rightarrow> run es s')"

inductive reachable :: "helper \<Rightarrow> bool" where
  reachable_start: "reachable (start f)"
| reachable_step: "reachable s \<Longrightarrow> step e s = Some s' \<Longrightarrow> reachable s'"

subsection \<open>Invariants of the event loop\<close>

text \<open>
  The calls of \<^verbatim>\<open>startSession\<close> that are suspended and the streaming sessions that
  have not ended are the session attempts under way. There is at most one, the flag
  \<^verbatim>\<open>sessionRunning\<close> is set while there is one, and the stored handle is a session
  that has not ended.
\<close>

definition inv_excl :: "helper \<Rightarrow> bool" where
  "inv_excl s =
     (length (tasks s) + length (liveHandles s) \<le> 1 \<and>
      ((tasks s \<noteq> [] \<or> liveHandles s \<noteq> []) \<longrightarrow> sessionRunning s) \<and>
      (\<forall>h. sipSession s = Some h \<longrightarrow> (\<exists>c. (h, c) \<in> set (liveHandles s))))"

text \<open>
  The only watcher that can be open is the one \<^verbatim>\<open>this.watcher\<close> holds; an open
  watcher has not sent its notification yet, and no watcher has sent two.
\<close>

definition inv_watch :: "helper \<Rightarrow> bool" where
  "inv_watch s =
     (openWatchers s = (case watcher s of None \<Rightarrow> [] | Some w \<Rightarrow> [w]) \<and>
      (\<forall>w \<in> set (openWatchers s). w < nextWatcher s \<and> w \<notin> set (readyBy s)) \<and>
      distinct (readyBy s) \<and>
      (\<forall>w \<in> set (readyBy s). w < nextWatcher s) \<and>
      length (filter (\<lambda>n. n = VIDEO_STREAM_AVAILABLE) (notifications s)) = length (readyBy s))"

subsection \<open>Concrete inputs\<close>

definition example_config :: config where
  "example_config =
     \<lparr>ring2faRefreshToken = ''ABC'', ringStreamMotion = True, ringMinutesToStreamVideo = 1\<rparr>"

definition fresh_fs :: filesystem where
  "fresh_fs = \<lparr>envFile = None, outDir = Absent, writable = True\<rparr>"


text \<open>Monitoring begins, the doorbell of the one camera is pressed, the directory is cleaned.\<close>

definition doorbell_trace :: "event list" where
  "doorbell_trace =
     [BeginMonitoring example_config (Connected 1 [''Front Door'']),
      DoorbellPressed ''Front Door'', CleanupSettled 0]"

text \<open>
  A first session ends at once; thirty seconds later a second one starts; thirty
  seconds later the timer of the first session fires.
\<close>

definition stale_timer_trace :: "event list" where
  "stale_timer_trace =
     doorbell_trace @
     [CreateResolved 0, CallEnded 0, Advance 30000,
      DoorbellPressed ''Front Door'', CleanupSettled 0, CreateResolved 0,
      Advance 30000, TimerFired 1]"

section \<open>Properties\<close>

lemmas handler_defs =
  toLog_def sendSocketNotification_def setTimeout_def stopWatchingFile_def
  watchForStreamStarted_def onAdd_def sessionBusy_def startSession_def onDoorbellPressed_def
  onMotionDetected_def startSession_cleaned_def startSession_created_def startSession_failed_def
  onCallEnded_def sipSession_stop_def onSessionTimeout_def fire_def stop_def
  onRefreshTokenUpdated_def monitorRingActivity_def socketNotificationReceived_def

lemmas fs_defs =
  cleanUpVideoStreamDirectory_def fs_exists_outDir_def fs_mkdir_def fs_readdir_def
  fs_unlink_def fs_writeEnvFile_def rotateToken_def js_replace_def

lemmas eval_defs =
  step_def start_def handler_defs fs_defs Let_def remove_nth_def timer_delay_def
  example_config_def fresh_fs_def doorbell_trace_def
  fileName_def after_last_def ignored_def audioPlaylistFile_def

subsection \<open>Cleaning the output directory\<close>





subsection \<open>Rotating the refresh token\<close>








subsection \<open>The invariants hold in every reachable state\<close>

lemma inv_excl_start: "inv_excl (start f)"
  by (simp add: inv_excl_def start_def)

lemma remove_nth_single: "length xs \<le> 1 \<Longrightarrow> i < length xs \<Longrightarrow> remove_nth i xs = []"
  by (cases xs) (auto simp: remove_nth_def)

lemma inv_excl_task:
  assumes "inv_excl s" "i < length (tasks s)"
  shows "liveHandles s = []" "remove_nth i (tasks s) = []" "sipSession s = None"
proof -
  from assms have "length (tasks s) + length (liveHandles s) \<le> 1"
    by (simp add: inv_excl_def)
  with assms(2) have l: "length (tasks s) \<le> 1" "length (liveHandles s) = 0"
    by linarith+
  then show "liveHandles s = []" by simp
  from l assms(2) show "remove_nth i (tasks s) = []" by (simp add: remove_nth_single)
  from assms(1) \<open>liveHandles s = []\<close> show "sipSession s = None"
    by (cases "sipSession s") (auto simp: inv_excl_def)
qed

lemma inv_excl_step:
  assumes "inv_excl s" "step e s = Some s'"
  shows "inv_excl s'"
proof (cases e)
  case (BeginMonitoring payload r)
  with assms show ?thesis
    by (auto simp: step_def inv_excl_def handler_defs Let_def
        split: option.splits prod.splits connect_result.splits)
next
  case (DoorbellPressed c)
  with assms show ?thesis
    by (auto simp: step_def inv_excl_def handler_defs Let_def split: if_splits)
next
  case (MotionDetected c m)
  with assms show ?thesis
    by (auto simp: step_def inv_excl_def handler_defs Let_def split: if_splits)
next
  case (MotionEvent c m)
  with assms show ?thesis
    by (auto simp: step_def inv_excl_def handler_defs Let_def split: if_splits)
next
  case (RefreshTokenUpdated n ol)
  with assms show ?thesis
    by (auto simp: step_def inv_excl_def handler_defs Let_def split: if_splits)
next
  case (CleanupSettled i)
  with assms(2) have i: "i < length (tasks s)"
    by (auto simp: step_def split: if_splits)
  with assms(1) have one: "liveHandles s = []" "remove_nth i (tasks s) = []" "sipSession s = None"
    by (rule inv_excl_task)+
  with assms CleanupSettled i show ?thesis
    by (auto simp: step_def inv_excl_def handler_defs Let_def
        split: if_splits task.splits option.splits prod.splits)
next
  case (CreateResolved i)
  with assms(2) have i: "i < length (tasks s)"
    by (auto simp: step_def split: if_splits)
  with assms(1) have one: "liveHandles s = []" "remove_nth i (tasks s) = []" "sipSession s = None"
    by (rule inv_excl_task)+
  with assms CreateResolved i show ?thesis
    by (auto simp: step_def inv_excl_def handler_defs Let_def
        split: if_splits task.splits option.splits prod.splits)
next
  case (CreateRejected i m)
  with assms(2) have i: "i < length (tasks s)"
    by (auto simp: step_def split: if_splits)
  with assms(1) have one: "liveHandles s = []" "remove_nth i (tasks s) = []" "sipSession s = None"
    by (rule inv_excl_task)+
  with assms CreateRejected i show ?thesis
    by (auto simp: step_def inv_excl_def handler_defs Let_def
        split: if_splits task.splits option.splits prod.splits)
next
  case (CallEnded h)
  from assms(2) CallEnded obtain cam where m: "map_of (liveHandles s) h = Some cam"
    by (auto simp: step_def split: option.splits)
  then have "(h, cam) \<in> set (liveHandles s)" by (rule map_of_SomeD)
  with assms(1) have "liveHandles s = [(h, cam)]" "tasks s = []"
    by (cases "liveHandles s"; auto simp: inv_excl_def)+
  with assms CallEnded m show ?thesis
    by (auto simp: step_def inv_excl_def handler_defs Let_def split: option.splits)
next
  case (TimerFired i)
  with assms show ?thesis
    by (auto simp: step_def inv_excl_def handler_defs Let_def
        split: if_splits option.splits timer_action.splits)
next
  case (WatcherAdd w p)
  with assms show ?thesis
    by (auto simp: step_def inv_excl_def handler_defs Let_def split: if_splits option.splits)
next
  case (Advance d)
  with assms show ?thesis by (auto simp: step_def inv_excl_def)
next
  case (EnvFs f)
  with assms show ?thesis by (auto simp: step_def inv_excl_def)
next
  case Stop
  with assms show ?thesis
    by (auto simp: step_def inv_excl_def handler_defs Let_def split: option.splits)
qed

lemma reachable_inv_excl: "reachable s \<Longrightarrow> inv_excl s"
  by (induction rule: reachable.induct) (auto intro: inv_excl_start inv_excl_step)

lemma inv_watch_start: "inv_watch (start f)"
  by (simp add: inv_watch_def start_def)

lemma inv_watch_step:
  assumes "inv_watch s" "step e s = Some s'"
  shows "inv_watch s'"
proof (cases e)
  case (BeginMonitoring payload r)
  with assms show ?thesis
    by (auto simp: step_def inv_watch_def handler_defs Let_def
        split: option.splits prod.splits connect_result.splits)
next
  case (DoorbellPressed c)
  with assms show ?thesis
    by (auto simp: step_def inv_watch_def handler_defs Let_def split: if_splits)
next
  case (MotionDetected c m)
  with assms show ?thesis
    by (auto simp: step_def inv_watch_def handler_defs Let_def split: if_splits)
next
  case (MotionEvent c m)
  with assms show ?thesis
    by (auto simp: step_def inv_watch_def handler_defs Let_def split: if_splits)
next
  case (RefreshTokenUpdated n ol)
  with assms show ?thesis
    by (auto simp: step_def inv_watch_def handler_defs Let_def split: if_splits)
next
  case (CleanupSettled i)
  with assms show ?thesis
    by (auto simp: step_def inv_watch_def handler_defs Let_def less_Suc_eq
        split: if_splits task.splits option.splits prod.splits)
next
  case (CreateResolved i)
  with assms show ?thesis
    by (auto simp: step_def inv_watch_def handler_defs Let_def
        split: if_splits task.splits option.splits prod.splits)
next
  case (CreateRejected i m)
  with assms show ?thesis
    by (auto simp: step_def inv_watch_def handler_defs Let_def
        split: if_splits task.splits option.splits prod.splits)
next
  case (CallEnded h)
  with assms show ?thesis
    by (auto simp: step_def inv_watch_def handler_defs Let_def split: option.splits)
next
  case (TimerFired i)
  with assms show ?thesis
    by (auto simp: step_def inv_watch_def handler_defs Let_def
        split: if_splits option.splits timer_action.splits)
next
  case (WatcherAdd w p)
  with assms show ?thesis
    by (auto simp: step_def inv_watch_def handler_defs Let_def split: if_splits option.splits)
next
  case (Advance d)
  with assms show ?thesis by (auto simp: step_def inv_watch_def)
next
  case (EnvFs f)
  with assms show ?thesis by (auto simp: step_def inv_watch_def)
next
  case Stop
  with assms show ?thesis
    by (auto simp: step_def inv_watch_def handler_defs Let_def split: option.splits)
qed

lemma reachable_inv_watch: "reachable s \<Longrightarrow> inv_watch s"
  by (induction rule: reachable.induct) (auto intro: inv_watch_start inv_watch_step)

lemma run_reachable: "reachable s \<Longrightarrow> run es s = Some s' \<Longrightarrow> reachable s'"
proof (induction es arbitrary: s)
  case Nil
  then show ?case by simp
next
  case (Cons e es)
  then show ?case
    by (cases "step e s") (auto intro: reachable_step)
qed

lemma closed_step:
  assumes "step e s = Some s'" "w < nextWatcher s" "w \<notin> set (openWatchers s)"
  shows "w < nextWatcher s' \<and> w \<notin> set (openWatchers s') \<and>
         count_list (readyBy s') w = count_list (readyBy s) w"
proof (cases e)
  case (BeginMonitoring payload r)
  with assms show ?thesis
    by (auto simp: step_def handler_defs Let_def
        split: option.splits prod.splits connect_result.splits)
next
  case (CleanupSettled i)
  with assms show ?thesis
    by (auto simp: step_def handler_defs Let_def
        split: if_splits task.splits option.splits prod.splits)
next
  case (CreateResolved i)
  with assms show ?thesis
    by (auto simp: step_def handler_defs Let_def
        split: if_splits task.splits option.splits prod.splits)
next
  case (CreateRejected i m)
  with assms show ?thesis
    by (auto simp: step_def handler_defs Let_def
        split: if_splits task.splits option.splits prod.splits)
next
  case (TimerFired i)
  with assms show ?thesis
    by (auto simp: step_def handler_defs Let_def
        split: if_splits option.splits timer_action.splits)
qed (use assms in \<open>auto simp: step_def handler_defs Let_def split: if_splits option.splits\<close>)

lemma closed_run:
  "run es s = Some s' \<Longrightarrow> w < nextWatcher s \<Longrightarrow> w \<notin> set (openWatchers s) \<Longrightarrow>
     count_list (readyBy s') w = count_list (readyBy s) w"
proof (induction es arbitrary: s)
  case Nil
  then show ?case by simp
next
  case (Cons e es)
  from Cons.prems(1) obtain s1 where s1: "step e s = Some s1" "run es s1 = Some s'"
    by (cases "step e s") auto
  from closed_step[OF s1(1) Cons.prems(2,3)] Cons.IH[OF s1(2)] show ?case by simp
qed

lemma distinct_count_le_1: "distinct xs \<Longrightarrow> count_list xs w \<le> 1"
  by (induction xs) (auto simp: count_list_0_iff)

subsection \<open>Readiness is signalled at most once\<close>

text \<open>
  C2. Every arming of the watcher (\<^verbatim>\<open>watchForStreamStarted\<close>) makes a new watcher,
  and \<open>readyBy\<close> lists the watcher behind each \<^verbatim>\<open>VIDEO_STREAM_AVAILABLE\<close> sent. Along
  every run from a reachable state, no watcher \<open>w\<close> is listed more than once, and a
  watcher that was made and is closed (disarmed by \<^verbatim>\<open>stopWatchingFile\<close>) is never
  listed again.
\<close>

theorem ready_at_most_once:
  assumes "reachable s" "run es s = Some s'"
  shows "count_list (readyBy s') w \<le> 1 \<and>
         length (filter (\<lambda>n. n = VIDEO_STREAM_AVAILABLE) (notifications s')) = length (readyBy s') \<and>
         (w < nextWatcher s \<and> w \<notin> set (openWatchers s) \<longrightarrow>
            count_list (readyBy s') w = count_list (readyBy s) w)"
proof -
  from run_reachable[OF assms] have "inv_watch s'" by (rule reachable_inv_watch)
  then have d: "distinct (readyBy s')"
    and n: "length (filter (\<lambda>n. n = VIDEO_STREAM_AVAILABLE) (notifications s')) = length (readyBy s')"
    by (simp_all add: inv_watch_def)
  from distinct_count_le_1[OF d, of w] n closed_run[OF assms(2), of w] show ?thesis by simp
qed

theorem ready_at_most_once_witness:
  "\<exists>s s'. run (doorbell_trace @ [WatcherAdd 0 ''/mm/public/stream.m3u8'']) (start fresh_fs) = Some s \<and>
     reachable s \<and> run [CreateResolved 0, CallEnded 0] s = Some s' \<and>
     0 < nextWatcher s \<and> openWatchers s = [] \<and> readyBy s = [0] \<and>
     count_list (readyBy s') 0 \<le> 1 \<and> count_list (readyBy s') 0 = count_list (readyBy s) 0"
proof -
  have "\<exists>s. run (doorbell_trace @ [WatcherAdd 0 ''/mm/public/stream.m3u8'']) (start fresh_fs) = Some s \<and>
          nextWatcher s = 1 \<and> openWatchers s = [] \<and> readyBy s = [0] \<and>
          (\<exists>s'. run [CreateResolved 0, CallEnded 0] s = Some s')"
    by (simp add: eval_defs)
  then obtain s s' where
    r1: "run (doorbell_trace @ [WatcherAdd 0 ''/mm/public/stream.m3u8'']) (start fresh_fs) = Some s"
    and f: "nextWatcher s = 1" "openWatchers s = []" "readyBy s = [0]"
    and r2: "run [CreateResolved 0, CallEnded 0] s = Some s'"
    by blast
  have reach: "reachable s" by (rule run_reachable[OF reachable_start r1])
  from ready_at_most_once[OF reach r2, of 0] f
  have "count_list (readyBy s') 0 \<le> 1" "count_list (readyBy s') 0 = count_list (readyBy s) 0"
    by simp_all
  with r1 reach r2 f show ?thesis by (intro exI[of _ s] exI[of _ s']) simp
qed

subsection \<open>One session at a time\<close>

lemma step_CreateRejected:
  assumes "step (CreateRejected i message) s = Some s'"
  shows "i < length (tasks s)"
    and "s' = startSession_failed message (s\<lparr>tasks := remove_nth i (tasks s)\<rparr>)"
  using assms by (auto simp: step_def split: if_splits task.splits)

text \<open>
  C1. In every reachable state the session attempts under way (the suspended calls of
  \<^verbatim>\<open>startSession\<close> and the streaming sessions that have not ended) number at most
  one, and the guard of \<^verbatim>\<open>startSession\<close> holds while there is one. Under that guard a
  trigger changes nothing: \<^verbatim>\<open>startSession\<close> and both camera subscribers return the
  state as it is. A trigger that passes the guard sets \<^verbatim>\<open>sessionRunning\<close> in the same
  run of the handler, before the call is suspended at its first \<^verbatim>\<open>await\<close>.
\<close>

theorem session_exclusivity:
  assumes "reachable s"
  shows "length (tasks s) + length (liveHandles s) \<le> 1 \<and>
         ((tasks s \<noteq> [] \<or> liveHandles s \<noteq> [] \<or> sipSession s \<noteq> None) \<longrightarrow> sessionBusy s) \<and>
         (sessionBusy s \<longrightarrow>
            startSession camera type s = s \<and> onDoorbellPressed camera s = s \<and>
            onMotionDetected camera motion s = s) \<and>
         (\<not> sessionBusy s \<longrightarrow>
            sessionRunning (startSession camera type s) \<and>
            tasks (startSession camera type s) = [AwaitCleanup camera type])"
proof -
  from assms have i: "inv_excl s" by (rule reachable_inv_excl)
  then have "\<not> sessionBusy s \<Longrightarrow> tasks s = []"
    by (auto simp: inv_excl_def sessionBusy_def)
  with i show ?thesis
    by (auto simp: inv_excl_def sessionBusy_def startSession_def onDoorbellPressed_def
        onMotionDetected_def toLog_def Let_def)
qed

theorem session_exclusivity_witness:
  "\<exists>s0 s. run [BeginMonitoring example_config (Connected 1 [''Front Door''])] (start fresh_fs) = Some s0 \<and>
     reachable s0 \<and> \<not> sessionBusy s0 \<and>
     sessionRunning (startSession ''Front Door'' Ring s0) \<and>
     tasks (startSession ''Front Door'' Ring s0) = [AwaitCleanup ''Front Door'' Ring] \<and>
     run doorbell_trace (start fresh_fs) = Some s \<and> reachable s \<and> sessionBusy s \<and>
     length (tasks s) + length (liveHandles s) \<le> 1 \<and>
     onDoorbellPressed ''Front Door'' s = s \<and> onMotionDetected ''Front Door'' True s = s"
proof -
  have "\<exists>s0. run [BeginMonitoring example_config (Connected 1 [''Front Door''])] (start fresh_fs) = Some s0 \<and>
          \<not> sessionBusy s0"
    by (simp add: eval_defs)
  then obtain s0 where
    r0: "run [BeginMonitoring example_config (Connected 1 [''Front Door''])] (start fresh_fs) = Some s0"
    and b0: "\<not> sessionBusy s0" by blast
  have "\<exists>s. run doorbell_trace (start fresh_fs) = Some s \<and> sessionBusy s"
    by (simp add: eval_defs)
  then obtain s where r: "run doorbell_trace (start fresh_fs) = Some s" and b: "sessionBusy s"
    by blast
  have reach0: "reachable s0" by (rule run_reachable[OF reachable_start r0])
  have reach: "reachable s" by (rule run_reachable[OF reachable_start r])
  from session_exclusivity[OF reach0, of "''Front Door''" Ring True] b0
  have c0: "sessionRunning (startSession ''Front Door'' Ring s0)"
    "tasks (startSession ''Front Door'' Ring s0) = [AwaitCleanup ''Front Door'' Ring]"
    by simp_all
  from session_exclusivity[OF reach, of "''Front Door''" Ring True] b
  have c: "length (tasks s) + length (liveHandles s) \<le> 1"
    "onDoorbellPressed ''Front Door'' s = s" "onMotionDetected ''Front Door'' True s = s"
    by simp_all
  from r0 reach0 b0 c0 r reach b c show ?thesis
    by (intro exI[of _ s0] exI[of _ s]) simp
qed

subsection \<open>Timers\<close>

lemma step_timers:
  assumes "step e s = Some s'"
  shows "(\<forall>i. e \<noteq> TimerFired i) \<longrightarrow> take (length (timers s)) (timers s') = timers s"
    and "\<forall>h. e = CallEnded h \<longrightarrow> timers s' = timers s"
    and "\<forall>w p. e = WatcherAdd w p \<longrightarrow> timers s' = timers s"
    and "\<forall>i. e = TimerFired i \<longrightarrow> i < length (timers s) \<and> fst (timers s ! i) \<le> now s \<and>
           s' = fire (snd (timers s ! i)) (s\<lparr>timers := remove_nth i (timers s)\<rparr>)"
proof -
  show "(\<forall>i. e \<noteq> TimerFired i) \<longrightarrow> take (length (timers s)) (timers s') = timers s"
  proof (cases e)
    case (BeginMonitoring payload r)
    with assms show ?thesis
      by (auto simp: step_def handler_defs Let_def
          split: option.splits prod.splits connect_result.splits)
  next
    case (CleanupSettled i)
    with assms show ?thesis
      by (auto simp: step_def handler_defs Let_def
          split: if_splits task.splits option.splits prod.splits)
  next
    case (CreateResolved i)
    with assms show ?thesis
      by (auto simp: step_def handler_defs Let_def
          split: if_splits task.splits option.splits prod.splits)
  next
    case (CreateRejected i m)
    with assms show ?thesis
      by (auto simp: step_def handler_defs Let_def
          split: if_splits task.splits option.splits prod.splits)
  qed (use assms in \<open>auto simp: step_def handler_defs Let_def split: if_splits option.splits\<close>)
  show "\<forall>h. e = CallEnded h \<longrightarrow> timers s' = timers s"
    using assms by (auto simp: step_def handler_defs Let_def split: option.splits)
  show "\<forall>w p. e = WatcherAdd w p \<longrightarrow> timers s' = timers s"
    using assms by (auto simp: step_def handler_defs Let_def split: if_splits option.splits)
  show "\<forall>i. e = TimerFired i \<longrightarrow> i < length (timers s) \<and> fst (timers s ! i) \<le> now s \<and>
           s' = fire (snd (timers s ! i)) (s\<lparr>timers := remove_nth i (timers s)\<rparr>)"
    using assms by (auto simp: step_def split: if_splits)
qed

text \<open>
  C3, as amended. The session timer and the watcher timer are separate timers, and
  neither is ever cancelled: only firing removes a timer, so the end of the session
  and the sighting of the playlist file leave every timer pending. A timer that
  fires acts on what the helper holds then: the session timer asks the stored
  session, if any, to stop and leaves the watcher alone; the watcher timer closes
  the stored watcher, if any, and leaves the session alone.
\<close>

theorem timers_never_cancelled:
  assumes "step e s = Some s'"
  shows "((\<forall>i. e \<noteq> TimerFired i) \<longrightarrow> take (length (timers s)) (timers s') = timers s) \<and>
         (\<forall>h. e = CallEnded h \<longrightarrow> timers s' = timers s) \<and>
         (\<forall>w p. e = WatcherAdd w p \<longrightarrow> timers s' = timers s) \<and>
         (\<forall>i. e = TimerFired i \<longrightarrow> i < length (timers s) \<and> fst (timers s ! i) \<le> now s \<and>
            s' = fire (snd (timers s ! i)) (s\<lparr>timers := remove_nth i (timers s)\<rparr>)) \<and>
         stopRequested (fire StopSessionTimer s) =
           stopRequested s @ (case sipSession s of None \<Rightarrow> [] | Some h \<Rightarrow> [h]) \<and>
         watcher (fire StopSessionTimer s) = watcher s \<and>
         openWatchers (fire StopSessionTimer s) = openWatchers s \<and>
         watcher (fire StopWatchingTimer s) = None \<and>
         openWatchers (fire StopWatchingTimer s) =
           (case watcher s of None \<Rightarrow> openWatchers s | Some w \<Rightarrow> removeAll w (openWatchers s)) \<and>
         sipSession (fire StopWatchingTimer s) = sipSession s \<and>
         stopRequested (fire StopWatchingTimer s) = stopRequested s"
  using step_timers[OF assms]
  by (simp add: fire_def onSessionTimeout_def sipSession_stop_def stopWatchingFile_def
      split: option.splits)

theorem timers_never_cancelled_witness:
  "\<exists>s s'. run (doorbell_trace @ [CreateResolved 0]) (start fresh_fs) = Some s \<and>
     step (CallEnded 0) s = Some s' \<and>
     timers s = [(15000, StopWatchingTimer), (60000, StopSessionTimer)] \<and>
     timers s' = timers s"
proof -
  have "\<exists>s. run (doorbell_trace @ [CreateResolved 0]) (start fresh_fs) = Some s \<and>
          timers s = [(15000, StopWatchingTimer), (60000, StopSessionTimer)] \<and>
          (\<exists>s'. step (CallEnded 0) s = Some s')"
    by (simp add: eval_defs)
  then obtain s s' where r: "run (doorbell_trace @ [CreateResolved 0]) (start fresh_fs) = Some s"
    and t: "timers s = [(15000, StopWatchingTimer), (60000, StopSessionTimer)]"
    and st: "step (CallEnded 0) s = Some s'" by blast
  from timers_never_cancelled[OF st] have "timers s' = timers s" by simp
  with r t st show ?thesis by (intro exI[of _ s] exI[of _ s']) simp
qed

text \<open>
  As the specification states it, the property fails: the first session's timer is still pending after the
  session has ended, and when it fires at 60000 ms it stops the second session,
  whose own timer is due at 90000 ms.
\<close>

theorem session_timer_counterexample:
  "map_option timers (run (doorbell_trace @ [CreateResolved 0, CallEnded 0]) (start fresh_fs)) =
     Some [(15000, StopWatchingTimer), (60000, StopSessionTimer)] \<and>
   map_option stopRequested (run stale_timer_trace (start fresh_fs)) = Some [1] \<and>
   map_option now (run stale_timer_trace (start fresh_fs)) = Some 60000 \<and>
   map_option timers (run stale_timer_trace (start fresh_fs)) =
     Some [(15000, StopWatchingTimer), (45000, StopWatchingTimer), (90000, StopSessionTimer)]"
  by (simp add: eval_defs stale_timer_trace_def)

subsection \<open>Failure to create the streaming session\<close>

lemma step_no_ended:
  assumes "step e s = Some s'" "liveHandles s = []" "\<forall>i. e \<noteq> CreateResolved i"
  shows "liveHandles s' = [] \<and>
         count_list (notifications s') VIDEO_STREAM_ENDED =
         count_list (notifications s) VIDEO_STREAM_ENDED"
proof (cases e)
  case (BeginMonitoring payload r)
  with assms show ?thesis
    by (auto simp: step_def handler_defs Let_def
        split: option.splits prod.splits connect_result.splits)
next
  case (CleanupSettled i)
  with assms show ?thesis
    by (auto simp: step_def handler_defs Let_def
        split: if_splits task.splits option.splits prod.splits)
next
  case (CreateResolved i)
  with assms show ?thesis by simp
next
  case (CreateRejected i m)
  with assms show ?thesis
    by (auto simp: step_def handler_defs Let_def
        split: if_splits task.splits option.splits prod.splits)
next
  case (TimerFired i)
  with assms show ?thesis
    by (auto simp: step_def handler_defs Let_def
        split: if_splits option.splits timer_action.splits)
qed (use assms in \<open>auto simp: step_def handler_defs Let_def split: if_splits option.splits\<close>)

lemma run_no_ended:
  "run es s = Some s' \<Longrightarrow> liveHandles s = [] \<Longrightarrow> \<forall>i. CreateResolved i \<notin> set es \<Longrightarrow>
     count_list (notifications s') VIDEO_STREAM_ENDED =
     count_list (notifications s) VIDEO_STREAM_ENDED"
proof (induction es arbitrary: s)
  case Nil
  then show ?case by simp
next
  case (Cons e es)
  from Cons.prems(1) obtain s1 where s1: "step e s = Some s1" "run es s1 = Some s'"
    by (cases "step e s") auto
  from Cons.prems(3) have ne: "\<forall>i. e \<noteq> CreateResolved i" and rest: "\<forall>i. CreateResolved i \<notin> set es"
    by auto
  from step_no_ended[OF s1(1) Cons.prems(2) ne] Cons.IH[OF s1(2) _ rest] show ?case by simp
qed

text \<open>
  C4, as amended. When the creation of the streaming session rejects, then right
  after the \<^verbatim>\<open>catch\<close> block the guard of \<^verbatim>\<open>startSession\<close> is open again (no handle
  stored, \<^verbatim>\<open>sessionRunning\<close> false), so the next trigger starts an attempt; the error
  is logged; the block sends no notification; and no streaming session exists or was
  created for the attempt, so that \<^verbatim>\<open>VIDEO_STREAM_ENDED\<close> is not sent for it: however
  the run goes on, none is sent before a later attempt has created a session.
\<close>

theorem creation_failure_contained:
  assumes "reachable s" "step (CreateRejected i message) s = Some s'"
  shows "\<not> sessionBusy s' \<and>
         console s' = console s @ [ErrorStartingStream message] \<and>
         notifications s' = notifications s \<and>
         liveHandles s' = [] \<and> nextHandle s' = nextHandle s \<and> tasks s' = [] \<and>
         tasks (startSession camera type s') = [AwaitCleanup camera type] \<and>
         (run es s' = Some s'' \<and> (\<forall>j. CreateResolved j \<notin> set es) \<longrightarrow>
            count_list (notifications s'') VIDEO_STREAM_ENDED =
            count_list (notifications s) VIDEO_STREAM_ENDED)"
proof -
  note st = step_CreateRejected[OF assms(2)]
  from assms(1) have "inv_excl s" by (rule reachable_inv_excl)
  from inv_excl_task[OF this st(1)] st(2)
  have a: "\<not> sessionBusy s' \<and>
         console s' = console s @ [ErrorStartingStream message] \<and>
         notifications s' = notifications s \<and>
         liveHandles s' = [] \<and> nextHandle s' = nextHandle s \<and> tasks s' = [] \<and>
         tasks (startSession camera type s') = [AwaitCleanup camera type]"
    by (simp add: handler_defs Let_def)
  then have "liveHandles s' = []" "notifications s' = notifications s" by simp_all
  with run_no_ended[of es s' s''] a show ?thesis by auto
qed

theorem creation_failure_contained_witness:
  "\<exists>s s' s''. run doorbell_trace (start fresh_fs) = Some s \<and> reachable s \<and>
     step (CreateRejected 0 ''boom'') s = Some s' \<and> \<not> sessionBusy s' \<and>
     console s' = console s @ [ErrorStartingStream ''boom''] \<and>
     notifications s' = notifications s \<and>
     tasks (startSession ''Front Door'' Ring s') = [AwaitCleanup ''Front Door'' Ring] \<and>
     run [Advance 15000, TimerFired 0, DoorbellPressed ''Front Door''] s' = Some s'' \<and>
     count_list (notifications s'') VIDEO_STREAM_ENDED =
     count_list (notifications s) VIDEO_STREAM_ENDED"
proof -
  have "\<exists>s. run doorbell_trace (start fresh_fs) = Some s \<and>
          (\<exists>s'. step (CreateRejected 0 ''boom'') s = Some s' \<and>
             (\<exists>s''. run [Advance 15000, TimerFired 0, DoorbellPressed ''Front Door''] s' = Some s''))"
    by (simp add: eval_defs)
  then obtain s s' s'' where r: "run doorbell_trace (start fresh_fs) = Some s"
    and st: "step (CreateRejected 0 ''boom'') s = Some s'"
    and r2: "run [Advance 15000, TimerFired 0, DoorbellPressed ''Front Door''] s' = Some s''"
    by blast
  have reach: "reachable s" by (rule run_reachable[OF reachable_start r])
  from creation_failure_contained[OF reach st,
      of "''Front Door''" Ring "[Advance 15000, TimerFired 0, DoorbellPressed ''Front Door'']" s'']
    r reach st r2
  show ?thesis by (intro exI[of _ s] exI[of _ s'] exI[of _ s'']) simp
qed

text \<open>
  As the specification states it, the property fails: the watcher is armed before the creation is requested,
  so the playlist file can be seen, and \<^verbatim>\<open>VIDEO_STREAM_AVAILABLE\<close> sent, for an
  attempt whose creation then rejects.
\<close>

theorem creation_failure_available_counterexample:
  "map_option notifications
     (run (doorbell_trace @ [WatcherAdd 0 ''/mm/public/stream.m3u8'', CreateRejected 0 ''boom''])
        (start fresh_fs)) = Some [VIDEO_STREAM_AVAILABLE]"
  by (simp add: eval_defs)

text \<open>
  C5, as amended. When the creation of the streaming session rejects, the helper is
  idle at once (no handle stored, \<^verbatim>\<open>sessionRunning\<close> false), the error is logged and
  no notification is sent; nothing is retried: the suspended call is gone, no other
  call takes its place, no timer is set and no session is asked to stop.
\<close>

theorem creation_failure_only_logged:
  assumes "reachable s" "step (CreateRejected i message) s = Some s'"
  shows "sipSession s' = None \<and> sessionRunning s' = False \<and>
         notifications s' = notifications s \<and>
         console s' = console s @ [ErrorStartingStream message] \<and>
         tasks s' = remove_nth i (tasks s) \<and> length (tasks s') < length (tasks s) \<and>
         timers s' = timers s \<and> stopRequested s' = stopRequested s"
proof -
  note st = step_CreateRejected[OF assms(2)]
  from assms(1) have "inv_excl s" by (rule reachable_inv_excl)
  from inv_excl_task[OF this st(1)] st show ?thesis
    by (auto simp: handler_defs Let_def)
qed

theorem creation_failure_only_logged_witness:
  "\<exists>s s'. run doorbell_trace (start fresh_fs) = Some s \<and> reachable s \<and>
     step (CreateRejected 0 ''boom'') s = Some s' \<and>
     sipSession s' = None \<and> sessionRunning s' = False \<and>
     notifications s' = notifications s \<and> timers s' = timers s \<and> tasks s' = []"
proof -
  have "\<exists>s. run doorbell_trace (start fresh_fs) = Some s \<and> length (tasks s) = 1 \<and>
          (\<exists>s'. step (CreateRejected 0 ''boom'') s = Some s')"
    by (simp add: eval_defs)
  then obtain s s' where r: "run doorbell_trace (start fresh_fs) = Some s"
    and l: "length (tasks s) = 1"
    and st: "step (CreateRejected 0 ''boom'') s = Some s'" by blast
  have reach: "reachable s" by (rule run_reachable[OF reachable_start r])
  from creation_failure_only_logged[OF reach st] l have "tasks s' = []"
    by (simp add: remove_nth_single)
  with creation_failure_only_logged[OF reach st] r reach st
  show ?thesis by (intro exI[of _ s] exI[of _ s']) simp
qed

text \<open>
  As the specification states it, the property fails: after a rejected creation the error is in the log and
  no notification at all has been sent.
\<close>

theorem creation_failure_no_notification_counterexample:
  "map_option notifications
     (run (doorbell_trace @ [CreateRejected 0 ''boom'']) (start fresh_fs)) = Some [] \<and>
   map_option console
     (run (doorbell_trace @ [CreateRejected 0 ''boom'']) (start fresh_fs)) =
     Some [StartingModule, FoundMsg 1 1, PreparingStream ''Front Door'' Ring,
           ErrorStartingStream ''boom'']"
  by (simp add: eval_defs)

subsection \<open>The watcher\<close>

lemma step_openWatchers:
  assumes "step e s = Some s'" "\<forall>i. e \<noteq> CleanupSettled i"
  shows "set (openWatchers s') \<subseteq> set (openWatchers s)"
proof (cases e)
  case (BeginMonitoring payload r)
  with assms show ?thesis
    by (auto simp: step_def handler_defs Let_def
        split: option.splits prod.splits connect_result.splits)
next
  case (CleanupSettled i)
  with assms show ?thesis by simp
next
  case (CreateResolved i)
  with assms show ?thesis
    by (auto simp: step_def handler_defs Let_def
        split: if_splits task.splits option.splits prod.splits)
next
  case (CreateRejected i m)
  with assms show ?thesis
    by (auto simp: step_def handler_defs Let_def
        split: if_splits task.splits option.splits prod.splits)
next
  case (TimerFired i)
  with assms show ?thesis
    by (auto simp: step_def handler_defs Let_def
        split: if_splits option.splits timer_action.splits)
qed (use assms in \<open>auto simp: step_def handler_defs Let_def split: if_splits option.splits\<close>)

lemma step_CleanupSettled:
  assumes "step (CleanupSettled i) s = Some s'"
  shows "i < length (tasks s) \<and> (\<exists>camera type. tasks s ! i = AwaitCleanup camera type)"
  using assms by (auto simp: step_def split: if_splits task.splits)

lemma step_CreateResolved:
  assumes "step (CreateResolved i) s = Some s'"
  shows "openWatchers s' = openWatchers s \<and> watcher s' = watcher s \<and>
         sipSession s' = Some (nextHandle s)"
  using assms by (auto simp: step_def handler_defs Let_def split: if_splits task.splits)

text \<open>
  C6, as amended. At every instant at most one watcher is open, the one the helper
  holds. A watcher is only ever armed by a call of \<^verbatim>\<open>startSession\<close> that has
  cleaned the directory and has no session handle yet (\<^verbatim>\<open>sessionRunning\<close> set,
  \<^verbatim>\<open>sipSession\<close> empty). It is not closed when the session is created: it stays
  open while the session is active.
\<close>

theorem watch_task_invariant:
  assumes "reachable s" "step e s = Some s'"
  shows "length (openWatchers s') \<le> 1 \<and> set (openWatchers s') = set_option (watcher s') \<and>
         (\<not> set (openWatchers s') \<subseteq> set (openWatchers s) \<longrightarrow>
            (\<exists>i camera type. e = CleanupSettled i \<and> i < length (tasks s) \<and>
               tasks s ! i = AwaitCleanup camera type) \<and>
            sessionRunning s \<and> sipSession s = None) \<and>
         (\<forall>i. e = CreateResolved i \<longrightarrow>
            openWatchers s' = openWatchers s \<and> watcher s' = watcher s \<and>
            sipSession s' = Some (nextHandle s))"
proof -
  from assms have "reachable s'" by (rule reachable_step)
  then have "inv_watch s'" by (rule reachable_inv_watch)
  then have a: "length (openWatchers s') \<le> 1 \<and> set (openWatchers s') = set_option (watcher s')"
    by (auto simp: inv_watch_def split: option.splits)
  have b: "(\<exists>i camera type. e = CleanupSettled i \<and> i < length (tasks s) \<and>
               tasks s ! i = AwaitCleanup camera type) \<and>
            sessionRunning s \<and> sipSession s = None"
    if new: "\<not> set (openWatchers s') \<subseteq> set (openWatchers s)"
  proof -
    from new step_openWatchers[OF assms(2)] obtain i where e: "e = CleanupSettled i" by blast
    from step_CleanupSettled[OF assms(2)[unfolded e]]
    have t: "i < length (tasks s)" "\<exists>camera type. tasks s ! i = AwaitCleanup camera type"
      by simp_all
    from assms(1) have ie: "inv_excl s" by (rule reachable_inv_excl)
    from t(1) have "tasks s \<noteq> []" by auto
    with ie have "sessionRunning s" by (simp add: inv_excl_def)
    with inv_excl_task(3)[OF ie t(1)] e t show ?thesis by blast
  qed
  from a b step_CreateResolved assms(2) show ?thesis by blast
qed

theorem watch_task_invariant_witness:
  "\<exists>s s'. run [BeginMonitoring example_config (Connected 1 [''Front Door'']),
              DoorbellPressed ''Front Door''] (start fresh_fs) = Some s \<and>
     reachable s \<and> step (CleanupSettled 0) s = Some s' \<and>
     openWatchers s = [] \<and> openWatchers s' = [0] \<and> length (openWatchers s') \<le> 1 \<and>
     sessionRunning s \<and> sipSession s = None"
proof -
  have "\<exists>s. run [BeginMonitoring example_config (Connected 1 [''Front Door'']),
              DoorbellPressed ''Front Door''] (start fresh_fs) = Some s \<and>
          openWatchers s = [] \<and>
          (\<exists>s'. step (CleanupSettled 0) s = Some s' \<and> openWatchers s' = [0])"
    by (simp add: eval_defs)
  then obtain s s' where
    r: "run [BeginMonitoring example_config (Connected 1 [''Front Door'']),
              DoorbellPressed ''Front Door''] (start fresh_fs) = Some s"
    and o: "openWatchers s = []"
    and st: "step (CleanupSettled 0) s = Some s'" and o': "openWatchers s' = [0]" by blast
  have reach: "reachable s" by (rule run_reachable[OF reachable_start r])
  from watch_task_invariant[OF reach st] o o'
  have "sessionRunning s" "sipSession s = None" "length (openWatchers s') \<le> 1" by simp_all
  with r reach st o o' show ?thesis by (intro exI[of _ s] exI[of _ s']) simp
qed

text \<open>
  As the specification states it, the property fails: once the session is created the helper holds a session
  handle, no call is suspended, and the watcher is still open.
\<close>

theorem watcher_outlives_starting_counterexample:
  "map_option openWatchers (run (doorbell_trace @ [CreateResolved 0]) (start fresh_fs)) = Some [0] \<and>
   map_option sipSession (run (doorbell_trace @ [CreateResolved 0]) (start fresh_fs)) = Some (Some 0) \<and>
   map_option tasks (run (doorbell_trace @ [CreateResolved 0]) (start fresh_fs)) = Some []"
  by (simp add: eval_defs)




subsection \<open>The end of a session\<close>

lemma step_CallEnded:
  assumes "step (CallEnded h) s = Some s'"
  shows "notifications s' = notifications s @ [VIDEO_STREAM_ENDED]"
  using assms by (auto simp: step_def handler_defs Let_def split: option.splits)

text \<open>
  C9. The subscriber of \<^verbatim>\<open>onCallEnded\<close> sends \<^verbatim>\<open>VIDEO_STREAM_ENDED\<close> whatever the
  state, so every end of a session sends it. In the run below the watcher timer
  closes the watcher before any playlist file is seen, and the session then ends:
  \<^verbatim>\<open>VIDEO_STREAM_ENDED\<close> is the only notification sent.
\<close>

theorem ended_without_available:
  "notifications (onCallEnded camera s) = notifications s @ [VIDEO_STREAM_ENDED] \<and>
   (step (CallEnded h) s = Some s' \<longrightarrow> notifications s' = notifications s @ [VIDEO_STREAM_ENDED]) \<and>
   map_option notifications
     (run (doorbell_trace @ [CreateResolved 0, Advance 15000, TimerFired 0, CallEnded 0])
        (start fresh_fs)) = Some [VIDEO_STREAM_ENDED]"
proof -
  have "map_option notifications
     (run (doorbell_trace @ [CreateResolved 0, Advance 15000, TimerFired 0, CallEnded 0])
        (start fresh_fs)) = Some [VIDEO_STREAM_ENDED]"
    by (simp add: eval_defs)
  moreover have "notifications (onCallEnded camera s) = notifications s @ [VIDEO_STREAM_ENDED]"
    by (simp add: handler_defs Let_def split: option.splits)
  ultimately show ?thesis using step_CallEnded[of h s s'] by blast
qed

theorem ended_without_available_witness:
  "\<exists>s s'. run (doorbell_trace @ [CreateResolved 0]) (start fresh_fs) = Some s \<and>
     step (CallEnded 0) s = Some s' \<and>
     notifications s' = notifications s @ [VIDEO_STREAM_ENDED]"
proof -
  have "\<exists>s. run (doorbell_trace @ [CreateResolved 0]) (start fresh_fs) = Some s \<and>
          (\<exists>s'. step (CallEnded 0) s = Some s')"
    by (simp add: eval_defs)
  then obtain s s' where r: "run (doorbell_trace @ [CreateResolved 0]) (start fresh_fs) = Some s"
    and st: "step (CallEnded 0) s = Some s'" by blast
  from ended_without_available[of "''Front Door''" s 0 s'] st
  have "notifications s' = notifications s @ [VIDEO_STREAM_ENDED]" by simp
  with r st show ?thesis by (intro exI[of _ s] exI[of _ s']) simp
qed

end
